theory Spec2Isabelle
  imports Main "HOL-Library.Word"
begin

section \<open>The TELNET data writer\<close>

text \<open>
  The repository has one source file, \<^verbatim>\<open>data_writer.go\<close>: the type
  \<^verbatim>\<open>internalDataWriter\<close>, whose only field \<^verbatim>\<open>wrapped\<close> is a
  \<^verbatim>\<open>*bufio.Writer\<close>, its constructor \<^verbatim>\<open>newDataWriter\<close> and its method
  \<^verbatim>\<open>Write\<close>. \<^verbatim>\<open>Write\<close> uses three methods of the wrapped writer:
  \<^verbatim>\<open>Write\<close>, \<^verbatim>\<open>WriteByte\<close> and \<^verbatim>\<open>Flush\<close>.

  Go's \<^verbatim>\<open>error\<close> is modelled as an option (\<open>None\<close> is \<^verbatim>\<open>nil\<close>), a byte as
  an 8-bit word, a byte slice as a list, Go's \<^verbatim>\<open>int\<close> counts as \<open>int\<close>
  (no count exceeds the length of a slice, so they never wrap).
  The \<^verbatim>\<open>log.Printf\<close> calls are diagnostics and are left out (the one on line 75
  has a closing parenthesis too many; it is read without it).
\<close>

type_synonym byte = "8 word"

subsection \<open>The wrapped writer as seen by \<^verbatim>\<open>Write\<close>\<close>

text \<open>
  The three methods of \<^verbatim>\<open>w.wrapped\<close> that \<^verbatim>\<open>Write\<close> calls, as functions on
  the wrapped writer's state \<open>'s\<close>:
  \<^verbatim>\<open>Write(p) (n int, err error)\<close>, \<^verbatim>\<open>WriteByte(c) error\<close>, \<^verbatim>\<open>Flush() error\<close>.
  In the program the wrapped writer is always a \<^verbatim>\<open>bufio.Writer\<close> (\<open>bufio snk\<close>
  below); taking the three methods as a parameter lets the calls be logged (\<open>traced\<close>
  below) without a second copy of \<^verbatim>\<open>Write\<close>.
\<close>

record ('s, 'e) wrapped =
  wWrite :: "'s \<Rightarrow> byte list \<Rightarrow> int \<times> 'e option \<times> 's"
  wWriteByte :: "'s \<Rightarrow> byte \<Rightarrow> 'e option \<times> 's"
  wFlush :: "'s \<Rightarrow> 'e option \<times> 's"

subsection \<open>\<^verbatim>\<open>internalDataWriter.Write\<close> (lines 66 to 113)\<close>

text \<open>
  \<open>Write_loop W s data i n_total\<close> is the \<^verbatim>\<open>for\<close> loop of lines 73 to 102 at the
  test \<^verbatim>\<open>i < len(data)\<close>, followed by the code after the loop (lines 103 to 112).
  The state \<open>s\<close> of the wrapped writer is passed along; the result is the pair
  \<^verbatim>\<open>(n, err)\<close> that \<^verbatim>\<open>Write\<close> returns, with the final state.

  In the branch for \<^verbatim>\<open>data[i] == 255\<close> the body ends with
  \<^verbatim>\<open>data = data[i+1:]; i = 0\<close>, and then the post statement \<^verbatim>\<open>i++\<close> of the
  \<^verbatim>\<open>for\<close> runs: the next test sees the index \<open>0 + 1\<close> of the new slice.
  A value returned by \<^verbatim>\<open>Flush\<close> is dropped at each of its five calls.
\<close>

function Write_loop ::
  "('s, 'e) wrapped \<Rightarrow> 's \<Rightarrow> byte list \<Rightarrow> nat \<Rightarrow> int \<Rightarrow> int \<times> 'e option \<times> 's"
where
  "Write_loop W s data i n_total =
    (if i < length data then
       (if data ! i = 255 then
          (case wWrite W s (take i data) of (n, e, s1) \<Rightarrow>
             (let n_total = n_total + n in
              if e \<noteq> None then (n_total, e, snd (wFlush W s1))
              else
                (case wWriteByte W s1 255 of (e, s2) \<Rightarrow>
                   if e \<noteq> None then (n_total, e, s2)
                   else
                     (let s3 = snd (wFlush W s2);
                          n_total = n_total + 1
                      in case wWriteByte W s3 255 of (e, s4) \<Rightarrow>
                           if e \<noteq> None then (n_total, e, snd (wFlush W s4))
                           else Write_loop W s4 (drop (i + 1) data) (0 + 1) n_total))))
        else Write_loop W s data (i + 1) n_total)
     else
       (case wWrite W s data of (n, e, s1) \<Rightarrow>
          (let n_total = n_total + n in
           if e \<noteq> None then (n_total, e, snd (wFlush W s1))
           else (n_total, None, snd (wFlush W s1)))))"
  by pat_completeness auto
termination
  by (relation "measure (\<lambda>(W, s, data, i, n_total). length data - i)") auto

definition Write :: "('s, 'e) wrapped \<Rightarrow> 's \<Rightarrow> byte list \<Rightarrow> int \<times> 'e option \<times> 's" where
  "Write W s data = Write_loop W s data 0 0"

subsection \<open>\<^verbatim>\<open>bufio.Writer\<close> of the Go standard library\<close>

text \<open>
  \<^verbatim>\<open>bufio\<close> is not part of the repository; the model follows the standard library's
  \<^verbatim>\<open>bufio.go\<close>. A \<^verbatim>\<open>bufio.Writer\<close> has the fields \<^verbatim>\<open>err\<close>, \<^verbatim>\<open>buf\<close>,
  \<^verbatim>\<open>n\<close> and \<^verbatim>\<open>wr\<close>. Here \<open>buf\<close> is the pending part \<^verbatim>\<open>b.buf[0:b.n]\<close>, so
  \<^verbatim>\<open>b.n\<close> is \<open>length (buf b)\<close>, \<open>buflen\<close> is \<^verbatim>\<open>len(b.buf)\<close>, and \<open>wr\<close> is
  the state of the underlying \<^verbatim>\<open>io.Writer\<close>.

  The underlying \<^verbatim>\<open>io.Writer\<close> is a function from its state and the slice it is given
  to an outcome and its next state. The documented contract of \<^verbatim>\<open>io.Writer\<close> is
  \<^verbatim>\<open>0 <= n <= len(p)\<close>, with a non-nil error whenever \<^verbatim>\<open>n < len(p)\<close>;
  \<open>Accepted\<close> stands for \<^verbatim>\<open>(len(p), nil)\<close> and \<open>Failed n e\<close> for
  \<^verbatim>\<open>(min n len(p), e)\<close>, so every outcome the contract allows can be given and no
  other.
\<close>

datatype 'e outcome = Accepted | Failed nat 'e

type_synonym ('k, 'e) sink = "'k \<Rightarrow> byte list \<Rightarrow> 'e outcome \<times> 'k"

record ('k, 'e) Writer =
  err :: "'e option"
  buf :: "byte list"
  buflen :: nat
  wr :: 'k

definition Available :: "('k, 'e) Writer \<Rightarrow> nat" where
  "Available b = buflen b - length (buf b)"

definition Buffered :: "('k, 'e) Writer \<Rightarrow> nat" where
  "Buffered b = length (buf b)"

text \<open>
  \<^verbatim>\<open>Flush\<close>: returns the recorded error if there is one; does nothing on an empty
  buffer; otherwise hands the pending bytes to the underlying writer, and on failure
  keeps the bytes that were not taken and records the error. (The library turns fewer
  bytes taken with a nil error into \<^verbatim>\<open>io.ErrShortWrite\<close>; under the contract above
  that does not happen.)
\<close>

definition bufio_Flush :: "('k, 'e) sink \<Rightarrow> ('k, 'e) Writer \<Rightarrow> 'e option \<times> ('k, 'e) Writer" where
  "bufio_Flush snk b =
    (if err b \<noteq> None then (err b, b)
     else if buf b = [] then (None, b)
     else
       (case snk (wr b) (buf b) of
          (Accepted, k) \<Rightarrow> (None, b\<lparr>buf := [], wr := k\<rparr>)
        | (Failed n e, k) \<Rightarrow> (Some e, b\<lparr>err := Some e, buf := drop n (buf b), wr := k\<rparr>)))"

text \<open>
  \<^verbatim>\<open>Write\<close>: while \<^verbatim>\<open>p\<close> does not fit and no error is recorded, either hand
  \<^verbatim>\<open>p\<close> to the underlying writer directly (empty buffer) or fill the buffer and
  flush it; then copy what is left into the buffer.
\<close>

function bufio_Write_loop ::
  "('k, 'e) sink \<Rightarrow> ('k, 'e) Writer \<Rightarrow> byte list \<Rightarrow> int \<Rightarrow> int \<times> 'e option \<times> ('k, 'e) Writer"
where
  "bufio_Write_loop snk b p nn =
    (if length p > Available b \<and> err b = None then
       (if Buffered b = 0 then
          (case snk (wr b) p of
             (Accepted, k) \<Rightarrow>
               bufio_Write_loop snk (b\<lparr>wr := k\<rparr>) (drop (length p) p) (nn + int (length p))
           | (Failed n e, k) \<Rightarrow>
               (let n = min n (length p) in
                bufio_Write_loop snk (b\<lparr>err := Some e, wr := k\<rparr>) (drop n p) (nn + int n)))
        else
          (let n = min (Available b) (length p);
               b1 = b\<lparr>buf := buf b @ take n p\<rparr>;
               b2 = snd (bufio_Flush snk b1)
           in bufio_Write_loop snk b2 (drop n p) (nn + int n)))
     else if err b \<noteq> None then (nn, err b, b)
     else
       (let n = min (Available b) (length p)
        in (nn + int n, None, b\<lparr>buf := buf b @ take n p\<rparr>)))"
  by pat_completeness auto
termination
  by (relation "measure (\<lambda>(snk, b, p, nn).
           if err b \<noteq> None then 0 else 1 + 2 * length p + (if buf b = [] then 0 else 1))")
     (auto simp: bufio_Flush_def Buffered_def split: if_splits prod.splits outcome.splits)

definition bufio_Write ::
  "('k, 'e) sink \<Rightarrow> ('k, 'e) Writer \<Rightarrow> byte list \<Rightarrow> int \<times> 'e option \<times> ('k, 'e) Writer" where
  "bufio_Write snk b p = bufio_Write_loop snk b p 0"

text \<open>
  \<^verbatim>\<open>WriteByte\<close>: returns the recorded error if there is one; flushes first when the
  buffer is full, and gives up if that fails; otherwise appends the byte.
\<close>

definition bufio_WriteByte ::
  "('k, 'e) sink \<Rightarrow> ('k, 'e) Writer \<Rightarrow> byte \<Rightarrow> 'e option \<times> ('k, 'e) Writer" where
  "bufio_WriteByte snk b c =
    (if err b \<noteq> None then (err b, b)
     else if Available b \<le> 0 then
       (case bufio_Flush snk b of (r, b1) \<Rightarrow>
          if r \<noteq> None then (err b1, b1)
          else (None, b1\<lparr>buf := buf b1 @ [c]\<rparr>))
     else (None, b\<lparr>buf := buf b @ [c]\<rparr>))"

definition bufio :: "('k, 'e) sink \<Rightarrow> (('k, 'e) Writer, 'e) wrapped" where
  "bufio snk = \<lparr>wWrite = bufio_Write snk, wWriteByte = bufio_WriteByte snk,
                wFlush = bufio_Flush snk\<rparr>"

text \<open>
  \<^verbatim>\<open>newDataWriter(w)\<close> (lines 60 to 63) wraps \<^verbatim>\<open>w\<close> in \<^verbatim>\<open>bufio.NewWriter(w)\<close>:
  an empty buffer of the default size 4096 and no recorded error. The argument is the
  state of \<^verbatim>\<open>w\<close>. (\<^verbatim>\<open>bufio.NewWriter\<close> hands back \<^verbatim>\<open>w\<close> itself when
  \<^verbatim>\<open>w\<close> is already a \<^verbatim>\<open>bufio.Writer\<close> of that size or more; the model is of
  the other case.)
\<close>

definition defaultBufSize :: nat where
  "defaultBufSize = 4096"

definition newDataWriter :: "'k \<Rightarrow> ('k, 'e) Writer" where
  "newDataWriter k = \<lparr>err = None, buf = [], buflen = defaultBufSize, wr = k\<rparr>"

subsection \<open>Underlying writers used in the examples\<close>

text \<open>
  \<open>recording\<close> is an \<^verbatim>\<open>io.Writer\<close> that takes every slice whole and keeps, as its
  state, all the bytes it has received so far. \<open>broken e\<close> takes nothing and fails with
  \<open>e\<close> at every call. \<open>stalling m e\<close> takes and keeps the first \<open>m\<close> bytes of the
  slice it is given and then fails with \<open>e\<close>.
\<close>

datatype sink_error = ErrClosed

definition recording :: "(byte list, 'e) sink" where
  "recording k p = (Accepted, k @ p)"

definition broken :: "'e \<Rightarrow> ('k, 'e) sink" where
  "broken e k p = (Failed 0 e, k)"

definition stalling :: "nat \<Rightarrow> 'e \<Rightarrow> (byte list, 'e) sink" where
  "stalling m e k p = (Failed m e, k @ take m p)"

subsection \<open>The escaping rule of the documentation\<close>

text \<open>
  The comment of \<^verbatim>\<open>internalDataWriter\<close> (lines 19 to 35): each byte 255 of the data
  becomes two bytes 255 in a row, every other byte stays.
\<close>

primrec escaped :: "byte list \<Rightarrow> byte list" where
  "escaped [] = []"
| "escaped (c # cs) = (if c = 255 then [255, 255] else [c]) @ escaped cs"

subsection \<open>Recording the calls made on the wrapped writer\<close>

text \<open>
  To speak about the order of the calls that \<^verbatim>\<open>Write\<close> makes, \<open>traced W\<close> is the
  wrapped writer \<open>W\<close> with a log in front of its state: each call behaves as in \<open>W\<close>
  and appends one event holding its arguments and its result.
\<close>

datatype 'e event =
    EvWrite "byte list" int "'e option"
  | EvWriteByte byte "'e option"
  | EvFlush "'e option"

definition traced :: "('s, 'e) wrapped \<Rightarrow> ('e event list \<times> 's, 'e) wrapped" where
  "traced W =
    \<lparr>wWrite = (\<lambda>(l, s) p. case wWrite W s p of (n, e, s') \<Rightarrow> (n, e, (l @ [EvWrite p n e], s'))),
     wWriteByte = (\<lambda>(l, s) c. case wWriteByte W s c of (e, s') \<Rightarrow> (e, (l @ [EvWriteByte c e], s'))),
     wFlush = (\<lambda>(l, s). case wFlush W s of (e, s') \<Rightarrow> (e, (l @ [EvFlush e], s')))\<rparr>"

text \<open>
  A forward operation is a call of \<^verbatim>\<open>Write\<close> or \<^verbatim>\<open>WriteByte\<close> on the wrapped
  writer; it failed when it returned an error.
\<close>

fun failed_forward :: "'e event \<Rightarrow> bool" where
  "failed_forward (EvWrite p n (Some e)) = True"
| "failed_forward (EvWriteByte c (Some e)) = True"
| "failed_forward ev = False"

fun is_flush :: "'e event \<Rightarrow> bool" where
  "is_flush (EvFlush r) = True"
| "is_flush ev = False"

fun ev_error :: "'e event \<Rightarrow> 'e option" where
  "ev_error (EvWrite p n e) = e"
| "ev_error (EvWriteByte c e) = e"
| "ev_error (EvFlush e) = e"

text \<open>The number of bytes a forward operation reported as taken.\<close>

fun ev_count :: "'e event \<Rightarrow> int" where
  "ev_count (EvWrite p n e) = n"
| "ev_count ev = 0"

text \<open>
  The input bytes accounted for by a sequence of calls: what each \<^verbatim>\<open>Write\<close> of a span
  reported as taken, and one for each byte 255 whose first copy was taken by
  \<^verbatim>\<open>WriteByte\<close> and followed by the flush of line 91.
\<close>

fun accounted :: "'e event list \<Rightarrow> int" where
  "accounted [] = 0"
| "accounted (EvWrite p n e # l) = n + accounted l"
| "accounted (EvWriteByte c None # EvFlush r # l) = 1 + accounted l"
| "accounted (ev # l) = accounted l"

text \<open>
  The shapes a log of one call of \<^verbatim>\<open>Write\<close> can have, with the count and the error
  the call returns: any number of complete rounds (span, 255, flush, 255), then either
  the last span and the flush, or a round cut short at its first failure.
\<close>

inductive call_shape :: "'e event list \<Rightarrow> int \<Rightarrow> 'e option \<Rightarrow> bool" where
  last_span: "call_shape [EvWrite p n None, EvFlush r] n None"
| span_failed: "call_shape [EvWrite p n (Some e), EvFlush r] n (Some e)"
| first_failed: "call_shape [EvWrite p n None, EvWriteByte 255 (Some e)] n (Some e)"
| second_failed:
    "call_shape [EvWrite p n None, EvWriteByte 255 None, EvFlush r,
                 EvWriteByte 255 (Some e), EvFlush r'] (n + 1) (Some e)"
| round:
    "call_shape l m x \<Longrightarrow>
     call_shape (EvWrite p n None # EvWriteByte 255 None # EvFlush r # EvWriteByte 255 None # l)
       (n + 1 + m) x"

subsection \<open>Writers that are in use\<close>

text \<open>
  The field \<^verbatim>\<open>wrapped\<close> is private and \<^verbatim>\<open>Write\<close> is the only method, so the
  states the buffered writer of an \<^verbatim>\<open>internalDataWriter\<close> goes through are the one
  that \<^verbatim>\<open>newDataWriter\<close> makes and those left by calls of \<^verbatim>\<open>Write\<close>.
\<close>

inductive reachable :: "('k, 'e) sink \<Rightarrow> ('k, 'e) Writer \<Rightarrow> bool" for snk where
  fresh: "reachable snk (newDataWriter k)"
| after_Write: "reachable snk w \<Longrightarrow> Write (bufio snk) w data = (n, x, w') \<Longrightarrow> reachable snk w'"

section \<open>Properties\<close>

subsection \<open>Unfolding the loop of \<^verbatim>\<open>Write\<close>\<close>

text \<open>
  The equation of \<open>Write_loop\<close> rewrites without end; it is replaced by one rule for
  each of the three ways through the loop, and an induction rule following them.
\<close>

lemma Write_loop_end:
  "\<not> i < length data \<Longrightarrow>
   Write_loop W s data i n_total =
     (case wWrite W s data of (n, e, s1) \<Rightarrow> (n_total + n, e, snd (wFlush W s1)))"
  by (subst Write_loop.simps) (auto simp: Let_def split: prod.splits)

lemma Write_loop_skip:
  "i < length data \<Longrightarrow> data ! i \<noteq> 255 \<Longrightarrow>
   Write_loop W s data i n_total = Write_loop W s data (i + 1) n_total"
  by (subst Write_loop.simps) simp

lemma Write_loop_IAC:
  "i < length data \<Longrightarrow> data ! i = 255 \<Longrightarrow>
   Write_loop W s data i n_total =
     (case wWrite W s (take i data) of (n, e, s1) \<Rightarrow>
        if e \<noteq> None then (n_total + n, e, snd (wFlush W s1))
        else
          (case wWriteByte W s1 255 of (e, s2) \<Rightarrow>
             if e \<noteq> None then (n_total + n, e, s2)
             else
               (case wWriteByte W (snd (wFlush W s2)) 255 of (e, s4) \<Rightarrow>
                  if e \<noteq> None then (n_total + n + 1, e, snd (wFlush W s4))
                  else Write_loop W s4 (drop (i + 1) data) 1 (n_total + n + 1))))"
  by (subst Write_loop.simps) (simp add: Let_def split: prod.splits)

declare Write_loop.simps [simp del]

lemma Write_loop_cases_induct [case_names final plain iac]:
  fixes data :: "byte list"
  assumes "\<And>s data i c. \<not> i < length data \<Longrightarrow> P s data i c"
    and "\<And>s data i c. i < length data \<Longrightarrow> data ! i \<noteq> 255 \<Longrightarrow> P s data (Suc i) c \<Longrightarrow> P s data i c"
    and "\<And>s data i c. i < length data \<Longrightarrow> data ! i = 255 \<Longrightarrow>
           (\<And>s4 n'. P s4 (drop (Suc i) data) (Suc 0) n') \<Longrightarrow> P s data i c"
  shows "P s data i c"
proof -
  have "length data - i = k \<Longrightarrow> P s data i c" for k s i c and data :: "byte list"
  proof (induction k arbitrary: s data i c rule: less_induct)
    case (less k s data i c)
    show ?case
    proof (cases "i < length data")
      case False
      then show ?thesis by (rule assms(1))
    next
      case True
      show ?thesis
      proof (cases "data ! i = 255")
        case False
        have "length data - Suc i < k" using True less.prems by simp
        then have "P s data (Suc i) c" by (rule less.IH) simp
        with True False show ?thesis by (rule assms(2))
      next
        case iac: True
        have "length (drop (Suc i) data) - Suc 0 < k" using True less.prems by simp
        then have "\<And>s4 n'. P s4 (drop (Suc i) data) (Suc 0) n'" by (rule less.IH) simp
        with True iac show ?thesis by (rule assms(3))
      qed
    qed
  qed
  then show ?thesis by simp
qed

lemma Write_loop_skip_many:
  fixes data :: "byte list"
  assumes "\<And>j. j < k \<Longrightarrow> data ! j \<noteq> 255" and "k \<le> length data"
  shows "Write_loop W s data 0 c = Write_loop W s data k c"
  using assms
proof (induction k)
  case 0
  show ?case by simp
next
  case (Suc k)
  then have "Write_loop W s data 0 c = Write_loop W s data k c" by simp
  also have "\<dots> = Write_loop W s data (k + 1) c"
    using Suc.prems by (intro Write_loop_skip) simp_all
  finally show ?case by simp
qed

subsection \<open>The log of a call\<close>

text \<open>
  The log added by \<open>traced\<close> does not change what \<^verbatim>\<open>Write\<close> returns, and it
  always has one of the shapes of \<open>call_shape\<close>.
\<close>

lemma traced_Write: "wWrite (traced W) (l, s) p =
   (case wWrite W s p of (n, e, s') \<Rightarrow> (n, e, (l @ [EvWrite p n e], s')))"
  by (simp add: traced_def)

lemma traced_WriteByte: "wWriteByte (traced W) (l, s) c =
   (case wWriteByte W s c of (e, s') \<Rightarrow> (e, (l @ [EvWriteByte c e], s')))"
  by (simp add: traced_def)

lemma traced_Flush: "wFlush (traced W) (l, s) =
   (case wFlush W s of (e, s') \<Rightarrow> (e, (l @ [EvFlush e], s')))"
  by (simp add: traced_def)

lemma traced_result:
  "Write_loop (traced W) (l0, s) data i c = (n, x, (log, s')) \<Longrightarrow>
   Write_loop W s data i c = (n, x, s')"
proof (induction s data i c arbitrary: l0 rule: Write_loop_cases_induct)
  case (final s data i c)
  then show ?case
    by (auto simp: Write_loop_end traced_Write traced_Flush split: prod.splits)
next
  case (plain s data i c)
  then show ?case by (simp add: Write_loop_skip)
next
  case (iac s data i c)
  from iac.prems iac.hyps show ?case
    by (auto simp: Write_loop_IAC traced_Write traced_Flush traced_WriteByte
             split: prod.splits if_splits dest: iac.IH)
qed

lemma call_shape_span: "call_shape [EvWrite p n x, EvFlush r] n x"
  by (cases x) (auto intro: last_span span_failed)

lemma loop_call_shape:
  "Write_loop (traced W) (l0, s) data i c = (n, x, (log, s')) \<Longrightarrow>
   \<exists>l1 m. log = l0 @ l1 \<and> n = c + m \<and> call_shape l1 m x"
proof (induction s data i c arbitrary: l0 rule: Write_loop_cases_induct)
  case (final s data i c)
  then show ?case
    by (auto simp: Write_loop_end traced_Write traced_Flush split: prod.splits
             intro: call_shape_span)
next
  case (plain s data i c)
  then show ?case by (simp add: Write_loop_skip)
next
  case (iac s data i c)
  obtain k e1 s1 where w1: "wWrite W s (take i data) = (k, e1, s1)"
    by (cases "wWrite W s (take i data)") auto
  obtain e2 s2 where w2: "wWriteByte W s1 255 = (e2, s2)"
    by (cases "wWriteByte W s1 255") auto
  obtain r3 s3 where w3: "wFlush W s2 = (r3, s3)"
    by (cases "wFlush W s2") auto
  obtain e4 s4 where w4: "wWriteByte W s3 255 = (e4, s4)"
    by (cases "wWriteByte W s3 255") auto
  show ?case
  proof (cases "e1 = None \<and> e2 = None \<and> e4 = None")
    case False
    with iac.prems iac.hyps w1 w2 w3 w4 show ?thesis
      by (auto simp: Write_loop_IAC traced_Write traced_Flush traced_WriteByte
               split: prod.splits if_splits
               intro: span_failed first_failed second_failed)
  next
    case ok: True
    let ?round = "[EvWrite (take i data) k None, EvWriteByte 255 None, EvFlush r3,
                   EvWriteByte 255 None]"
    from iac.prems iac.hyps w1 w2 w3 w4 ok
    have "Write_loop (traced W) (l0 @ ?round, s4) (drop (Suc i) data) (Suc 0) (c + k + 1) =
            (n, x, (log, s'))"
      by (simp add: Write_loop_IAC traced_Write traced_Flush traced_WriteByte)
    then obtain l1 m where
      l1: "log = (l0 @ ?round) @ l1" "n = c + k + 1 + m" and sh: "call_shape l1 m x"
      using iac.IH by blast
    have "call_shape (?round @ l1) (k + 1 + m) x"
      using round [OF sh, of "take i data" k r3] by simp
    with l1 show ?thesis
      by (intro exI [of _ "?round @ l1"] exI [of _ "k + 1 + m"]) simp
  qed
qed

lemma Write_call_shape:
  "Write (traced W) ([], s) data = (n, x, (log, s')) \<Longrightarrow> call_shape log n x"
  using loop_call_shape [of W "[]" s data 0 0 n x log s'] by (simp add: Write_def)

lemma call_shape_starts:
  "call_shape l n x \<Longrightarrow> \<exists>p k e rest. l = EvWrite p k e # rest"
  by (induction rule: call_shape.induct) auto

lemma call_shape_last:
  "call_shape l n x \<Longrightarrow>
   is_flush (last l) \<or> (\<exists>e. last l = EvWriteByte 255 (Some e) \<and> x = Some e)"
proof (induction rule: call_shape.induct)
  case (round l m x p n r)
  from call_shape_starts [OF round.hyps] have "l \<noteq> []" by auto
  with round.IH show ?case by simp
qed simp_all

lemma call_shape_failed:
  "call_shape l n x \<Longrightarrow> l = pre @ ev # post \<Longrightarrow> failed_forward ev \<Longrightarrow>
   list_all is_flush post \<and> length post \<le> 1 \<and> x = ev_error ev"
proof (induction arbitrary: pre rule: call_shape.induct)
  case (round l m x p n r)
  from round.prems obtain pre' where "pre = EvWrite p n None # EvWriteByte 255 None # EvFlush r # EvWriteByte 255 None # pre'"
    and "l = pre' @ ev # post"
    by (auto simp: append_eq_Cons_conv Cons_eq_append_conv)
  then show ?case using round.IH round.prems by blast
qed (auto simp: append_eq_Cons_conv Cons_eq_append_conv)

lemma accounted_skip:
  "\<forall>r l. x \<noteq> EvFlush r # l \<Longrightarrow> accounted (EvWriteByte c e # x) = accounted x"
  by (cases x rule: accounted.cases; cases e) auto

lemma accounted_append:
  "\<forall>r l. x \<noteq> EvFlush r # l \<Longrightarrow> accounted (pre @ x) = accounted pre + accounted x"
  by (induction pre rule: accounted.induct) (auto simp: accounted_skip)

lemma accounted_failed:
  "failed_forward ev \<Longrightarrow> list_all is_flush post \<Longrightarrow> length post \<le> 1 \<Longrightarrow>
   accounted (ev # post) = ev_count ev"
  by (cases ev rule: failed_forward.cases; cases post rule: accounted.cases) auto

lemma call_shape_accounted: "call_shape l n x \<Longrightarrow> n = accounted l"
proof (induction rule: call_shape.induct)
  case (round l m x p n r)
  then show ?case using call_shape_starts [OF round.hyps] by auto
qed auto

subsection \<open>Bounds on the count, for any wrapped writer\<close>

text \<open>
  What the count needs from the \<^verbatim>\<open>Write\<close> of the wrapped writer.
\<close>

lemma Write_loop_count_bounds:
  assumes W: "\<And>s p n e s'. wWrite W s p = (n, e, s') \<Longrightarrow> 0 \<le> n \<and> n \<le> int (length p)"
  shows "Write_loop W s data i c = (n, x, s') \<Longrightarrow> c \<le> n \<and> n \<le> c + int (length data)"
proof (induction s data i c rule: Write_loop_cases_induct)
  case (final s data i c)
  then show ?case
    by (auto simp: Write_loop_end split: prod.splits dest: W)
next
  case (plain s data i c)
  then show ?case by (simp add: Write_loop_skip)
next
  case (iac s data i c)
  from iac.prems iac.hyps show ?case
    by (auto simp: Write_loop_IAC split: prod.splits if_splits dest!: iac.IH W)
qed

lemma Write_loop_count_exact:
  assumes W: "\<And>s p n s'. wWrite W s p = (n, None, s') \<Longrightarrow> n = int (length p)"
  shows "Write_loop W s data i c = (n, None, s') \<Longrightarrow> n = c + int (length data)"
proof (induction s data i c rule: Write_loop_cases_induct)
  case (final s data i c)
  then show ?case
    by (auto simp: Write_loop_end split: prod.splits dest: W)
next
  case (plain s data i c)
  then show ?case by (simp add: Write_loop_skip)
next
  case (iac s data i c)
  from iac.prems iac.hyps show ?case
    by (auto simp: Write_loop_IAC split: prod.splits if_splits dest!: iac.IH W)
qed

lemma Write_loop_final_state:
  "Write_loop W s data i c = (n, x, s') \<Longrightarrow>
   (\<exists>s1. s' = snd (wFlush W s1)) \<or> (\<exists>s1 e. wWriteByte W s1 255 = (Some e, s'))"
proof (induction s data i c rule: Write_loop_cases_induct)
  case (final s data i c)
  then show ?case
    by (auto simp: Write_loop_end split: prod.splits)
next
  case (plain s data i c)
  then show ?case by (simp add: Write_loop_skip)
next
  case (iac s data i c)
  from iac.prems iac.hyps show ?case
    by (auto simp: Write_loop_IAC split: prod.splits if_splits dest!: iac.IH)
qed

subsection \<open>The buffered writer\<close>

text \<open>
  The loop of \<^verbatim>\<open>bufio.Writer.Write\<close> runs at most twice; its cases are unfolded
  one by one.
\<close>

lemma bufio_Write_loop_err:
  "err b = Some e \<Longrightarrow> bufio_Write_loop snk b p nn = (nn, Some e, b)"
  by (subst bufio_Write_loop.simps) simp

lemma bufio_Write_loop_fits:
  "err b = None \<Longrightarrow> length p \<le> Available b \<Longrightarrow>
   bufio_Write_loop snk b p nn = (nn + int (length p), None, b\<lparr>buf := buf b @ p\<rparr>)"
  by (subst bufio_Write_loop.simps) (simp add: Let_def min_def)

declare bufio_Write_loop.simps [simp del]

lemma bufio_Write_loop_direct:
  "err b = None \<Longrightarrow> Available b < length p \<Longrightarrow> buf b = [] \<Longrightarrow>
   bufio_Write_loop snk b p nn =
     (case snk (wr b) p of
        (Accepted, k) \<Rightarrow> (nn + int (length p), None, b\<lparr>wr := k\<rparr>)
      | (Failed n e, k) \<Rightarrow> (nn + int (min n (length p)), Some e, b\<lparr>err := Some e, wr := k\<rparr>))"
  by (subst bufio_Write_loop.simps)
     (simp add: Let_def Buffered_def bufio_Write_loop_err bufio_Write_loop_fits
           split: prod.splits outcome.splits)

lemma bufio_Write_loop_fill:
  "err b = None \<Longrightarrow> Available b < length p \<Longrightarrow> buf b \<noteq> [] \<Longrightarrow>
   bufio_Write_loop snk b p nn =
     bufio_Write_loop snk (snd (bufio_Flush snk (b\<lparr>buf := buf b @ take (Available b) p\<rparr>)))
       (drop (Available b) p) (nn + int (Available b))"
  by (subst bufio_Write_loop.simps) (simp add: Let_def Buffered_def min_def)

lemma bufio_Flush_post:
  assumes "bufio_Flush snk b = (r, b')"
  shows "err b' \<noteq> None \<or> buf b' = []"
proof (cases "err b")
  case None
  with assms show ?thesis
    by (auto simp: bufio_Flush_def split: if_splits prod.splits outcome.splits)
next
  case (Some e)
  then have "bufio_Flush snk b = (Some e, b)" by (simp add: bufio_Flush_def)
  with assms have "b' = b" by simp
  with Some show ?thesis by simp
qed

lemma bufio_Flush_failed:
  assumes "bufio_Flush snk b = (Some e, b')"
  shows "err b' = Some e"
proof (cases "err b")
  case None
  with assms show ?thesis
    by (auto simp: bufio_Flush_def split: if_splits prod.splits outcome.splits)
next
  case (Some e')
  then have "bufio_Flush snk b = (Some e', b)" by (simp add: bufio_Flush_def)
  with assms Some show ?thesis by simp
qed

lemma bufio_WriteByte_failed:
  "bufio_WriteByte snk b c = (Some e, b') \<Longrightarrow> err b' = Some e"
  by (cases "err b")
     (auto simp: bufio_WriteByte_def bufio_Flush_def split: if_splits prod.splits outcome.splits)

lemma bufio_WriteByte_sticky:
  "err b = Some e \<Longrightarrow> bufio_WriteByte snk b c = (Some e, b)"
  by (simp add: bufio_WriteByte_def)

lemma bufio_Flush_then_WriteByte:
  assumes "bufio_Flush snk b = (Some e, b')" and "bufio_WriteByte snk b' c = (x, b'')"
  shows "x = Some e"
proof -
  have "err b' = Some e" using assms(1) by (rule bufio_Flush_failed)
  then have "bufio_WriteByte snk b' c = (Some e, b')" by (rule bufio_WriteByte_sticky)
  with assms(2) show ?thesis by simp
qed

lemma bufio_Write_loop_count_flushed:
  assumes "err b \<noteq> None \<or> buf b = []" and "bufio_Write_loop snk b p nn = (r, x, b')"
  shows "nn \<le> r \<and> r \<le> nn + int (length p) \<and> (x = None \<longrightarrow> r = nn + int (length p))"
proof (cases "err b")
  case (Some e)
  then have "bufio_Write_loop snk b p nn = (nn, Some e, b)" by (rule bufio_Write_loop_err)
  with assms(2) show ?thesis by auto
next
  case None
  with assms(1) have empty: "buf b = []" by simp
  show ?thesis
  proof (cases "length p \<le> Available b")
    case True
    with None assms(2) show ?thesis by (simp add: bufio_Write_loop_fits)
  next
    case False
    with None empty assms(2) show ?thesis
      by (auto simp: bufio_Write_loop_direct split: prod.splits outcome.splits)
  qed
qed

lemma bufio_Write_loop_count:
  assumes "bufio_Write_loop snk b p nn = (r, x, b')"
  shows "nn \<le> r \<and> r \<le> nn + int (length p) \<and> (x = None \<longrightarrow> r = nn + int (length p))"
proof (cases "err b = None \<and> Available b < length p \<and> buf b \<noteq> []")
  case False
  show ?thesis
  proof (cases "err b \<noteq> None \<or> buf b = []")
    case True
    then show ?thesis using assms by (rule bufio_Write_loop_count_flushed)
  next
    case fits: False
    with False assms show ?thesis by (simp add: bufio_Write_loop_fits)
  qed
next
  case True
  let ?b2 = "snd (bufio_Flush snk (b\<lparr>buf := buf b @ take (Available b) p\<rparr>))"
  have "err ?b2 \<noteq> None \<or> buf ?b2 = []"
    by (rule bufio_Flush_post [of snk _ "fst (bufio_Flush snk (b\<lparr>buf := buf b @ take (Available b) p\<rparr>))"]) simp
  moreover from True assms
  have "bufio_Write_loop snk ?b2 (drop (Available b) p) (nn + int (Available b)) = (r, x, b')"
    by (simp add: bufio_Write_loop_fill)
  ultimately have "nn + int (Available b) \<le> r \<and>
      r \<le> nn + int (Available b) + int (length (drop (Available b) p)) \<and>
      (x = None \<longrightarrow> r = nn + int (Available b) + int (length (drop (Available b) p)))"
    by (rule bufio_Write_loop_count_flushed)
  with True show ?thesis by auto
qed

lemma bufio_ops [simp]:
  "wWrite (bufio snk) = bufio_Write snk"
  "wWriteByte (bufio snk) = bufio_WriteByte snk"
  "wFlush (bufio snk) = bufio_Flush snk"
  by (simp_all add: bufio_def)

lemma bufio_Write_count:
  "bufio_Write snk b p = (r, x, b') \<Longrightarrow>
   0 \<le> r \<and> r \<le> int (length p) \<and> (x = None \<longrightarrow> r = int (length p))"
  using bufio_Write_loop_count [of snk b p 0 r x b'] by (simp add: bufio_Write_def)

subsection \<open>\<^verbatim>\<open>Write\<close> over the buffered writer\<close>

text \<open>
  What holds of \<^verbatim>\<open>internalDataWriter.Write\<close> because its wrapped writer is a
  \<^verbatim>\<open>bufio.Writer\<close>: the state it leaves, the failures it returns, and what it does
  once an error is recorded.
\<close>

lemma Write_bufio_post:
  assumes "Write (bufio snk) w data = (n, x, w')"
  shows "err w' \<noteq> None \<or> buf w' = []"
proof -
  from assms have "(\<exists>s1. w' = snd (bufio_Flush snk s1)) \<or>
      (\<exists>s1 e. bufio_WriteByte snk s1 255 = (Some e, w'))"
    using Write_loop_final_state [of "bufio snk" w data 0 0 n x w'] by (simp add: Write_def)
  then show ?thesis
  proof
    assume "\<exists>s1. w' = snd (bufio_Flush snk s1)"
    then obtain s1 where "w' = snd (bufio_Flush snk s1)" by blast
    then have "bufio_Flush snk s1 = (fst (bufio_Flush snk s1), w')" by simp
    then show ?thesis by (rule bufio_Flush_post)
  next
    assume "\<exists>s1 e. bufio_WriteByte snk s1 255 = (Some e, w')"
    then obtain s1 e where "bufio_WriteByte snk s1 255 = (Some e, w')" by blast
    then have "err w' = Some e" by (rule bufio_WriteByte_failed)
    then show ?thesis by simp
  qed
qed

lemma reachable_flushed: "reachable snk w \<Longrightarrow> err w \<noteq> None \<or> buf w = []"
proof (induction rule: reachable.induct)
  case (fresh k)
  show ?case by (simp add: newDataWriter_def)
next
  case (after_Write w data n x w')
  from after_Write.hyps(2) show ?case by (rule Write_bufio_post)
qed

lemma bufio_loop_failures_returned:
  "Write_loop (traced (bufio snk)) (l0, s) data i c = (n, x, (log, s')) \<Longrightarrow>
   \<exists>l1. log = l0 @ l1 \<and> l1 \<noteq> [] \<and> (\<forall>ev \<in> set (butlast l1). \<forall>e. ev_error ev = Some e \<longrightarrow> x = Some e)"
proof (induction s data i c arbitrary: l0 rule: Write_loop_cases_induct)
  case (final s data i c)
  then show ?case
    by (auto simp: Write_loop_end traced_Write traced_Flush split: prod.splits)
next
  case (plain s data i c)
  then show ?case by (simp add: Write_loop_skip)
next
  case (iac s data i c)
  obtain k e1 s1 where w1: "bufio_Write snk s (take i data) = (k, e1, s1)"
    by (cases "bufio_Write snk s (take i data)") auto
  obtain e2 s2 where w2: "bufio_WriteByte snk s1 255 = (e2, s2)"
    by (cases "bufio_WriteByte snk s1 255") auto
  obtain r3 s3 where w3: "bufio_Flush snk s2 = (r3, s3)"
    by (cases "bufio_Flush snk s2") auto
  obtain e4 s4 where w4: "bufio_WriteByte snk s3 255 = (e4, s4)"
    by (cases "bufio_WriteByte snk s3 255") auto
  have sticky: "e4 = Some e" if "r3 = Some e" for e
    using w3 w4 that bufio_Flush_then_WriteByte [of snk s2 e s3 255 e4 s4] by simp
  show ?case
  proof (cases "e1 = None \<and> e2 = None \<and> e4 = None")
    case False
    with iac.prems iac.hyps w1 w2 w3 w4 sticky show ?thesis
      by (auto simp: Write_loop_IAC traced_Write traced_Flush traced_WriteByte
               split: prod.splits if_splits)
  next
    case ok: True
    with sticky have r3: "r3 = None" by (cases r3) auto
    let ?l = "l0 @ [EvWrite (take i data) k None, EvWriteByte 255 None, EvFlush None,
                    EvWriteByte 255 None]"
    from iac.prems iac.hyps w1 w2 w3 w4 ok r3
    have "Write_loop (traced (bufio snk)) (?l, s4) (drop (Suc i) data) (Suc 0) (c + k + 1) =
            (n, x, (log, s'))"
      by (simp add: Write_loop_IAC traced_Write traced_Flush traced_WriteByte)
    then obtain l1 where l1: "log = ?l @ l1" "l1 \<noteq> []"
        "\<forall>ev \<in> set (butlast l1). \<forall>e. ev_error ev = Some e \<longrightarrow> x = Some e"
      using iac.IH by blast
    let ?l1 = "[EvWrite (take i data) k None, EvWriteByte 255 None, EvFlush None,
                EvWriteByte 255 None] @ l1"
    have "log = l0 @ ?l1" using l1(1) by simp
    moreover have "?l1 \<noteq> []" by simp
    moreover have "\<forall>ev \<in> set (butlast ?l1). \<forall>e. ev_error ev = Some e \<longrightarrow> x = Some e"
      using l1(2,3) by (auto simp: butlast_append)
    ultimately show ?thesis by blast
  qed
qed

lemma Write_loop_after_recorded_error:
  "err w = Some e \<Longrightarrow> Write_loop (bufio snk) w data i c = (c, Some e, w)"
proof (induction w data i c rule: Write_loop_cases_induct)
  case (final w data i c)
  then show ?case
    by (simp add: Write_loop_end bufio_Write_def bufio_Write_loop_err bufio_Flush_def)
next
  case (plain w data i c)
  then show ?case by (simp add: Write_loop_skip)
next
  case (iac w data i c)
  then show ?case
    by (simp add: Write_loop_IAC bufio_Write_def bufio_Write_loop_err bufio_Flush_def)
qed

lemma Write_after_recorded_error:
  "err w = Some e \<Longrightarrow> Write (bufio snk) w data = (0, Some e, w)"
  by (simp add: Write_def Write_loop_after_recorded_error)

subsection \<open>The buffered writer over a recording underlying writer\<close>

text \<open>
  Over an underlying writer that takes everything, no call fails and the bytes reach it
  in the order they were written.
\<close>

lemma recording_Flush:
  "err b = None \<Longrightarrow>
   bufio_Flush recording b = (None, b\<lparr>buf := [], wr := wr b @ buf b\<rparr>)"
  by (cases "buf b = []") (simp_all add: bufio_Flush_def recording_def)

lemma recording_Write:
  assumes "err b = None"
  shows "\<exists>b'. bufio_Write recording b p = (int (length p), None, b') \<and> err b' = None \<and>
           buflen b' = buflen b \<and> wr b' @ buf b' = wr b @ buf b @ p"
proof (cases "length p \<le> Available b")
  case True
  with assms show ?thesis by (simp add: bufio_Write_def bufio_Write_loop_fits)
next
  case False
  show ?thesis
  proof (cases "buf b = []")
    case True
    with assms False show ?thesis
      by (simp add: bufio_Write_def bufio_Write_loop_direct recording_def)
  next
    case filled: False
    let ?a = "Available b"
    let ?b2 = "b\<lparr>buf := [], wr := wr b @ buf b @ take ?a p\<rparr>"
    have step: "bufio_Write_loop recording b p 0 =
        bufio_Write_loop recording ?b2 (drop ?a p) (int ?a)"
      using assms False filled by (simp add: bufio_Write_loop_fill recording_Flush)
    have a: "?a < length p" using False by simp
    show ?thesis
    proof (cases "length (drop ?a p) \<le> Available ?b2")
      case True
      with assms step a show ?thesis
        by (simp add: bufio_Write_def bufio_Write_loop_fits)
    next
      case False
      with assms step a show ?thesis
        by (simp add: bufio_Write_def bufio_Write_loop_direct recording_def)
    qed
  qed
qed

lemma recording_WriteByte:
  assumes "err b = None"
  shows "\<exists>b'. bufio_WriteByte recording b c = (None, b') \<and> err b' = None \<and>
           buflen b' = buflen b \<and> wr b' @ buf b' = wr b @ buf b @ [c]"
  using assms by (simp add: bufio_WriteByte_def recording_Flush)

lemma escaped_append: "escaped (xs @ ys) = escaped xs @ escaped ys"
  by (induction xs) simp_all

lemma escaped_plain: "(255 :: byte) \<notin> set xs \<Longrightarrow> escaped xs = xs"
  by (induction xs) auto

lemma recording_loop:
  "(\<forall>j. Suc j < length data \<longrightarrow> data ! j = 255 \<longrightarrow> data ! Suc j \<noteq> 255) \<Longrightarrow>
   (\<forall>j < i. j < length data \<longrightarrow> data ! j \<noteq> 255) \<Longrightarrow> err b = None \<Longrightarrow>
   \<exists>b'. Write_loop (bufio recording) b data i c = (c + int (length data), None, b') \<and>
        err b' = None \<and> buf b' = [] \<and> buflen b' = buflen b \<and>
        wr b' = wr b @ buf b @ escaped data"
proof (induction b data i c rule: Write_loop_cases_induct)
  case (final b data i c)
  then have "(255 :: byte) \<notin> set data" by (auto simp: in_set_conv_nth)
  then have plain: "escaped data = data" by (rule escaped_plain)
  from recording_Write [OF final.prems(3), of data] obtain b1 where
    b1: "bufio_Write recording b data = (int (length data), None, b1)" "err b1 = None"
      "buflen b1 = buflen b" "wr b1 @ buf b1 = wr b @ buf b @ data" by blast
  with final.hyps plain show ?case
    by (simp add: Write_loop_end recording_Flush)
next
  case (plain b data i c)
  from plain.prems(2) plain.hyps(2) have "\<forall>j < Suc i. j < length data \<longrightarrow> data ! j \<noteq> 255"
    by (auto simp: less_Suc_eq)
  with plain.IH plain.prems plain.hyps show ?case by (simp add: Write_loop_skip)
next
  case (iac b data i c)
  let ?rest = "drop (Suc i) data"
  have split: "data = take i data @ 255 # ?rest"
    using iac.hyps id_take_nth_drop [of i data] by simp
  have "(255 :: byte) \<notin> set (take i data)"
    using iac.prems(2) iac.hyps(1) by (auto simp: in_set_conv_nth)
  then have span: "escaped (take i data) = take i data" by (rule escaped_plain)
  have esc: "escaped data = take i data @ [255, 255] @ escaped ?rest"
    by (subst split) (simp add: escaped_append span)
  from recording_Write [OF iac.prems(3), of "take i data"] obtain b1 where
    b1: "bufio_Write recording b (take i data) = (int (length (take i data)), None, b1)"
      "err b1 = None" "buflen b1 = buflen b" "wr b1 @ buf b1 = wr b @ buf b @ take i data"
    by blast
  from recording_WriteByte [OF b1(2), of 255] obtain b2 where
    b2: "bufio_WriteByte recording b1 255 = (None, b2)" "err b2 = None"
      "buflen b2 = buflen b1" "wr b2 @ buf b2 = wr b1 @ buf b1 @ [255]" by blast
  let ?b3 = "b2\<lparr>buf := [], wr := wr b2 @ buf b2\<rparr>"
  have b3: "bufio_Flush recording b2 = (None, ?b3)" using b2(2) by (rule recording_Flush)
  have "err ?b3 = None" using b2(2) by simp
  from recording_WriteByte [OF this, of 255] obtain b4 where
    b4: "bufio_WriteByte recording ?b3 255 = (None, b4)" "err b4 = None"
      "buflen b4 = buflen ?b3" "wr b4 @ buf b4 = wr ?b3 @ buf ?b3 @ [255]" by blast
  have adj: "\<forall>j. Suc j < length ?rest \<longrightarrow> ?rest ! j = 255 \<longrightarrow> ?rest ! Suc j \<noteq> 255"
    using iac.prems(1) by (auto simp: add.commute)
  have first: "\<forall>j < Suc 0. j < length ?rest \<longrightarrow> ?rest ! j \<noteq> 255"
    using iac.prems(1) iac.hyps by auto
  from iac.IH [OF adj first b4(2), of "c + int (length (take i data)) + 1"] obtain b' where
    b': "Write_loop (bufio recording) b4 ?rest (Suc 0) (c + int (length (take i data)) + 1) =
           (c + int (length (take i data)) + 1 + int (length ?rest), None, b')"
      "err b' = None" "buf b' = []" "buflen b' = buflen b4"
      "wr b' = wr b4 @ buf b4 @ escaped ?rest" by blast
  have len: "c + int (length (take i data)) + 1 + int (length ?rest) = c + int (length data)"
    using iac.hyps(1) by simp
  have "Write_loop (bufio recording) b data i c = (c + int (length data), None, b')"
    using iac.hyps b1(1) b2(1) b3 b4(1) b'(1) len by (simp add: Write_loop_IAC)
  moreover have "wr b' = wr b @ buf b @ escaped data"
    using b'(5) b4(4) b2(4) b1(4) esc by simp
  moreover have "buflen b' = buflen b" using b'(4) b4(3) b2(3) b1(3) by simp
  ultimately show ?case using b'(2,3) by blast
qed

section \<open>The claims\<close>

subsection \<open>Failure of a forward operation\<close>

text \<open>
  C6 as stated (after a failed forward operation the call returns the count of the input
  bytes accounted for before the failing attempt) fails where the failing operation is the
  \<^verbatim>\<open>Write\<close> of a span that took some bytes before it failed: the count includes
  them, since \<^verbatim>\<open>n_total += n\<close> comes before the test of the error (lines 80 and
  104). A span of 4097 bytes does not fit the buffer of a new writer and is handed to the
  underlying writer as it is; that one takes 5 bytes and fails. Nothing was accounted for
  before this first operation, and the count returned is 5.
\<close>

theorem count_includes_partly_taken_span:
  "Write (traced (bufio (stalling 5 ErrClosed))) ([], newDataWriter []) (replicate 4097 7) =
     (5, Some ErrClosed,
      ([EvWrite (replicate 4097 7) 5 (Some ErrClosed), EvFlush (Some ErrClosed)],
       \<lparr>err = Some ErrClosed, buf = [], buflen = 4096, wr = replicate 5 7\<rparr>)) \<and>
   accounted ([] :: sink_error event list) = 0"
proof -
  let ?data = "replicate 4097 (7 :: byte)"
  let ?W = "traced (bufio (stalling 5 ErrClosed))"
  let ?s = "([] :: sink_error event list, newDataWriter [] :: (byte list, sink_error) Writer)"
  have "Write_loop ?W ?s ?data 0 0 = Write_loop ?W ?s ?data 4097 0"
    by (rule Write_loop_skip_many) simp_all
  also have "\<dots> = (5, Some ErrClosed,
      ([EvWrite ?data 5 (Some ErrClosed), EvFlush (Some ErrClosed)],
       \<lparr>err = Some ErrClosed, buf = [], buflen = 4096, wr = replicate 5 7\<rparr>))"
    by (simp add: Write_loop_end traced_Write traced_Flush bufio_Write_def
          bufio_Write_loop_direct bufio_Flush_def Available_def newDataWriter_def
          defaultBufSize_def stalling_def)
  finally show ?thesis by (simp add: Write_def)
qed

text \<open>
  C6, amended. If a forward operation on the wrapped writer (a \<^verbatim>\<open>Write\<close> of a span
  or a \<^verbatim>\<open>WriteByte\<close> of a byte 255) fails during a call of \<^verbatim>\<open>Write\<close>, the call
  stops there: no forward operation follows it, only at most one \<^verbatim>\<open>Flush\<close>; the call
  returns the error of that operation, and the count it returns is what had been accounted
  for before the failing operation plus what the failing operation itself reported as
  taken. This holds for every wrapped writer \<open>W\<close>, the buffered writer over any
  underlying writer among them. The log is that of the run of \<^verbatim>\<open>Write\<close> on \<open>W\<close>
  itself (last conjunct).
\<close>

theorem Write_stops_at_failed_forward:
  assumes run: "Write (traced W) ([], s) data = (n, x, (log, s'))"
    and split: "log = pre @ ev # post"
    and failed: "failed_forward ev"
  shows "list_all is_flush post \<and> length post \<le> 1 \<and> x = ev_error ev \<and>
         n = accounted pre + ev_count ev \<and> Write W s data = (n, x, s')"
proof -
  have shape: "call_shape log n x" using run by (rule Write_call_shape)
  from call_shape_failed [OF shape split failed]
  have post: "list_all is_flush post" "length post \<le> 1" and x: "x = ev_error ev" by simp_all
  have "n = accounted log" using shape by (rule call_shape_accounted)
  also have "\<dots> = accounted pre + accounted (ev # post)"
    unfolding split using failed by (intro accounted_append) auto
  also have "accounted (ev # post) = ev_count ev"
    using failed post by (rule accounted_failed)
  finally have n: "n = accounted pre + ev_count ev" .
  have "Write W s data = (n, x, s')"
    using run unfolding Write_def by (rule traced_result)
  with post x n show ?thesis by simp
qed

text \<open>
  An instance: the buffered writer has recorded an error in an earlier call, so the span
  write before the byte 255 fails; the flush follows and nothing else.
\<close>

theorem Write_stops_at_failed_forward_witness:
  "Write (traced (bufio (broken ErrClosed)))
     ([], \<lparr>err = Some ErrClosed, buf = [1], buflen = 4096, wr = ()\<rparr>) [2, 255, 3] =
     (0, Some ErrClosed,
      ([EvWrite [2] 0 (Some ErrClosed), EvFlush (Some ErrClosed)],
       \<lparr>err = Some ErrClosed, buf = [1], buflen = 4096, wr = ()\<rparr>)) \<and>
   failed_forward (EvWrite [2] 0 (Some ErrClosed)) \<and>
   Write (bufio (broken ErrClosed))
     \<lparr>err = Some ErrClosed, buf = [1], buflen = 4096, wr = ()\<rparr> [2, 255, 3] =
     (0, Some ErrClosed, \<lparr>err = Some ErrClosed, buf = [1], buflen = 4096, wr = ()\<rparr>)"
proof -
  have run: "Write (traced (bufio (broken ErrClosed)))
     ([], \<lparr>err = Some ErrClosed, buf = [1], buflen = 4096, wr = ()\<rparr>) [2, 255, 3] =
     (0, Some ErrClosed,
      ([EvWrite [2] 0 (Some ErrClosed), EvFlush (Some ErrClosed)],
       \<lparr>err = Some ErrClosed, buf = [1], buflen = 4096, wr = ()\<rparr>))"
    by code_simp
  have split: "[EvWrite [2] 0 (Some ErrClosed), EvFlush (Some ErrClosed)] =
      [] @ EvWrite [2] 0 (Some ErrClosed) # [EvFlush (Some ErrClosed)]" by simp
  have failed: "failed_forward (EvWrite [2] 0 (Some ErrClosed))" by simp
  from Write_stops_at_failed_forward [OF run split failed] run failed show ?thesis by simp
qed

text \<open>
  C10. When the \<^verbatim>\<open>WriteByte\<close> of the first 255 of a pair succeeds and that of the
  second 255 fails, the count returned includes the input byte 255 of that pair: it is
  one more than what had been accounted for before the pair.
\<close>

theorem count_includes_half_escaped_IAC:
  assumes run: "Write (traced W) ([], s) data = (n, x, (log, s'))"
    and split: "log = pre @ EvWriteByte 255 None # EvFlush r # EvWriteByte 255 (Some e) # post"
  shows "n = accounted pre + 1 \<and> x = Some e"
proof -
  have shape: "call_shape log n x" using run by (rule Write_call_shape)
  let ?ev = "EvWriteByte 255 (Some e)"
  have split': "log = (pre @ [EvWriteByte 255 None, EvFlush r]) @ ?ev # post"
    using split by simp
  have failed: "failed_forward ?ev" by simp
  from call_shape_failed [OF shape split' failed]
  have post: "list_all is_flush post" "length post \<le> 1" and x: "x = Some e" by simp_all
  have "n = accounted log" using shape by (rule call_shape_accounted)
  also have "\<dots> = accounted pre + accounted (EvWriteByte 255 None # EvFlush r # ?ev # post)"
    unfolding split by (intro accounted_append) simp
  also have "accounted (EvWriteByte 255 None # EvFlush r # ?ev # post) = 1 + accounted (?ev # post)"
    by simp
  also have "accounted (?ev # post) = ev_count ?ev"
    using failed post by (rule accounted_failed)
  finally show ?thesis using x by simp
qed

text \<open>
  An instance: the underlying writer is broken, so the flush of line 91 records an error
  and the second \<^verbatim>\<open>WriteByte\<close> fails; the count 2 includes the byte 255.
\<close>

theorem count_includes_half_escaped_IAC_witness:
  "Write (traced (bufio (broken ErrClosed))) ([], newDataWriter ()) [7, 255, 9] =
     (2, Some ErrClosed,
      ([EvWrite [7] 1 None, EvWriteByte 255 None, EvFlush (Some ErrClosed),
        EvWriteByte 255 (Some ErrClosed), EvFlush (Some ErrClosed)],
       \<lparr>err = Some ErrClosed, buf = [7, 255], buflen = 4096, wr = ()\<rparr>)) \<and>
   (2 :: int) = accounted [EvWrite [7] 1 (None :: sink_error option)] + 1"
proof -
  have run: "Write (traced (bufio (broken ErrClosed))) ([], newDataWriter ()) [7, 255, 9] =
     (2, Some ErrClosed,
      ([EvWrite [7] 1 None, EvWriteByte 255 None, EvFlush (Some ErrClosed),
        EvWriteByte 255 (Some ErrClosed), EvFlush (Some ErrClosed)],
       \<lparr>err = Some ErrClosed, buf = [7, 255], buflen = 4096, wr = ()\<rparr>))"
    by code_simp
  have split: "[EvWrite [7] 1 None, EvWriteByte 255 None, EvFlush (Some ErrClosed),
        EvWriteByte 255 (Some ErrClosed), EvFlush (Some ErrClosed)] =
      [EvWrite [7] 1 None] @ EvWriteByte 255 None # EvFlush (Some ErrClosed) #
        EvWriteByte 255 (Some ErrClosed) # [EvFlush (Some ErrClosed)]" by simp
  from count_includes_half_escaped_IAC [OF run split] run show ?thesis by simp
qed

subsection \<open>The count returned\<close>

text \<open>
  C7. The count that \<^verbatim>\<open>Write\<close> returns counts input bytes: it is the sum of what
  the span writes reported as taken plus one for each byte 255 handled (one, not the two
  bytes forwarded for it); and when \<^verbatim>\<open>Write\<close> returns a nil error, the count is
  the length of the input. The wrapped writer is the buffered writer over any underlying
  writer, in any state.
\<close>

theorem Write_counts_input_bytes:
  assumes run: "Write (traced (bufio snk)) ([], w) data = (n, x, (log, w'))"
  shows "Write (bufio snk) w data = (n, x, w') \<and> n = accounted log \<and>
         (x = None \<longrightarrow> n = int (length data))"
proof -
  have plain: "Write (bufio snk) w data = (n, x, w')"
    using run unfolding Write_def by (rule traced_result)
  have "call_shape log n x" using run by (rule Write_call_shape)
  then have acc: "n = accounted log" by (rule call_shape_accounted)
  have "n = int (length data)" if "x = None"
  proof -
    have "n = 0 + int (length data)"
    proof (rule Write_loop_count_exact)
      show "Write_loop (bufio snk) w data 0 0 = (n, None, w')"
        using plain that by (simp add: Write_def)
    next
      fix s p k s'
      assume "wWrite (bufio snk) s p = (k, None, s')"
      then show "k = int (length p)" using bufio_Write_count [of snk s p k None s'] by simp
    qed
    then show ?thesis by simp
  qed
  with plain acc show ?thesis by simp
qed

text \<open>
  An instance: three input bytes, four bytes reach the underlying writer, the count is 3.
\<close>

theorem Write_counts_input_bytes_witness:
  "Write (traced (bufio recording)) ([], newDataWriter []) [1, 255, 2] =
     (3, None :: sink_error option,
      ([EvWrite [1] 1 None, EvWriteByte 255 None, EvFlush None, EvWriteByte 255 None,
        EvWrite [2] 1 None, EvFlush None],
       \<lparr>err = None, buf = [], buflen = 4096, wr = [1, 255, 255, 2]\<rparr>)) \<and>
   Write (bufio recording) (newDataWriter []) [1, 255, 2] =
     (3, None :: sink_error option, \<lparr>err = None, buf = [], buflen = 4096, wr = [1, 255, 255, 2]\<rparr>) \<and>
   (3 :: int) = int (length [1, 255, 2 :: byte])"
proof -
  have run: "Write (traced (bufio recording)) ([], newDataWriter []) [1, 255, 2] =
     (3, None :: sink_error option,
      ([EvWrite [1] 1 None, EvWriteByte 255 None, EvFlush None, EvWriteByte 255 None,
        EvWrite [2] 1 None, EvFlush None],
       \<lparr>err = None, buf = [], buflen = 4096, wr = [1, 255, 255, 2]\<rparr>))"
    by code_simp
  from Write_counts_input_bytes [OF run] run show ?thesis by simp
qed

text \<open>
  C9. For every input, every state of the buffered writer and every behaviour of the
  underlying writer, failures included, the count returned by \<^verbatim>\<open>Write\<close> lies
  between 0 and the length of the input.
\<close>

theorem Write_count_bounds:
  "0 \<le> fst (Write (bufio snk) w data) \<and> fst (Write (bufio snk) w data) \<le> int (length data)"
proof -
  obtain n x w' where run: "Write_loop (bufio snk) w data 0 0 = (n, x, w')"
    by (cases "Write_loop (bufio snk) w data 0 0") auto
  have "0 \<le> n \<and> n \<le> 0 + int (length data)"
  proof (rule Write_loop_count_bounds [OF _ run])
    fix s p k e s'
    assume "wWrite (bufio snk) s p = (k, e, s')"
    then show "0 \<le> k \<and> k \<le> int (length p)" using bufio_Write_count [of snk s p k e s'] by simp
  qed
  with run show ?thesis by (simp add: Write_def)
qed

subsection \<open>Empty input\<close>

text \<open>
  C8 as stated (writing an empty sequence succeeds) fails for a writer whose buffered
  writer has recorded an error: \<^verbatim>\<open>bufio.Writer\<close> returns its recorded error from
  every later call. After a \<^verbatim>\<open>Write\<close> of one byte over a broken underlying writer,
  a \<^verbatim>\<open>Write\<close> of the empty sequence returns that error.
\<close>

theorem empty_Write_after_failure:
  "Write (bufio (broken ErrClosed)) (newDataWriter ()) [1] =
     (1, None, \<lparr>err = Some ErrClosed, buf = [1], buflen = 4096, wr = ()\<rparr>) \<and>
   Write (bufio (broken ErrClosed)) \<lparr>err = Some ErrClosed, buf = [1], buflen = 4096, wr = ()\<rparr> [] =
     (0, Some ErrClosed, \<lparr>err = Some ErrClosed, buf = [1], buflen = 4096, wr = ()\<rparr>)"
  by code_simp

text \<open>
  C8, amended. On a writer made by \<^verbatim>\<open>newDataWriter\<close> and used through
  \<^verbatim>\<open>Write\<close> only, whose buffered writer has no recorded error, writing the empty
  sequence returns the count 0 and a nil error and leaves the writer, and with it the
  underlying writer, as it was: nothing is forwarded.
\<close>

theorem empty_Write_succeeds:
  assumes "reachable snk w" and "err w = None"
  shows "Write (bufio snk) w [] = (0, None, w)"
proof -
  from assms have "buf w = []" using reachable_flushed by blast
  with assms(2) show ?thesis
    by (simp add: Write_def Write_loop_end bufio_Write_def bufio_Write_loop_fits bufio_Flush_def)
qed

text \<open>An instance: the writer after a successful \<^verbatim>\<open>Write\<close> of two bytes.\<close>

theorem empty_Write_succeeds_witness:
  "reachable recording \<lparr>err = None :: sink_error option, buf = [], buflen = 4096, wr = [7, 255, 255]\<rparr> \<and>
   Write (bufio recording) \<lparr>err = None :: sink_error option, buf = [], buflen = 4096, wr = [7, 255, 255]\<rparr> [] =
     (0, None, \<lparr>err = None, buf = [], buflen = 4096, wr = [7, 255, 255]\<rparr>)"
proof -
  have step: "Write (bufio recording) (newDataWriter []) [7, 255] =
      (2, None :: sink_error option, \<lparr>err = None, buf = [], buflen = 4096, wr = [7, 255, 255]\<rparr>)"
    by code_simp
  have r: "reachable recording \<lparr>err = None :: sink_error option, buf = [], buflen = 4096, wr = [7, 255, 255]\<rparr>"
    by (rule after_Write [OF fresh step])
  from empty_Write_succeeds [OF r] r show ?thesis by simp
qed

subsection \<open>Escaping\<close>

text \<open>
  C1 (the sink receives the input with every byte 255 doubled and nothing else changed)
  does not hold of the code. After a byte 255 the loop sets \<^verbatim>\<open>i = 0\<close> on the rest of
  the data and the post statement \<^verbatim>\<open>i++\<close> then moves to index 1, so the byte that
  follows a byte 255 is never tested. For the input 1, 255, 255, 2 over a new writer whose
  underlying writer records what it receives, the second 255 is forwarded once: five
  bytes arrive where the rule of the documentation, \<open>escaped\<close>, gives six.
\<close>

theorem adjacent_IAC_not_doubled:
  "Write (bufio recording) (newDataWriter []) [1, 255, 255, 2] =
     (4, None :: sink_error option,
      \<lparr>err = None, buf = [], buflen = 4096, wr = [1, 255, 255, 255, 2]\<rparr>) \<and>
   escaped [1, 255, 255, 2] = [1, 255, 255, 255, 255, 2]"
  by code_simp

text \<open>
  C2 (the input 255, 255 delivers the four bytes 255, 255, 255, 255) does not hold of the
  code, for the same reason: three bytes are delivered.
\<close>

theorem two_IAC_give_three_bytes:
  "Write (bufio recording) (newDataWriter []) [255, 255] =
     (2, None :: sink_error option,
      \<lparr>err = None, buf = [], buflen = 4096, wr = [255, 255, 255]\<rparr>)"
  by code_simp

text \<open>
  C3 (issuing the pieces of a split input in separate calls delivers the same bytes as one
  call) does not hold of the code, for the same reason: 255, 255 in one call delivers
  three bytes, the two calls with 255 each deliver four.
\<close>

theorem split_between_IACs_differs:
  "wr (snd (snd (Write (bufio recording) (newDataWriter [] :: (byte list, sink_error) Writer)
       [255, 255]))) = [255, 255, 255] \<and>
   wr (snd (snd (Write (bufio recording)
       (snd (snd (Write (bufio recording) (newDataWriter [] :: (byte list, sink_error) Writer) [255])))
       [255]))) = [255, 255, 255, 255]"
  by code_simp

text \<open>
  The defect is confined to a byte 255 that directly follows a byte 255. The example of
  the documentation (lines 29 and 33) comes out as documented, and so does every input in
  which no byte 255 directly follows another, written in one call to a new writer over an
  underlying writer that records what it receives.
\<close>

lemma documented_example:
  "Write (bufio recording) (newDataWriter []) [1, 55, 2, 155, 3, 255, 4, 40, 255, 30, 20] =
     (11, None :: sink_error option,
      \<lparr>err = None, buf = [], buflen = 4096,
       wr = [1, 55, 2, 155, 3, 255, 255, 4, 40, 255, 255, 30, 20]\<rparr>)"
  by code_simp

lemma Write_escapes_apart_from_adjacent_IAC:
  assumes "\<forall>j. Suc j < length data \<longrightarrow> data ! j = 255 \<longrightarrow> data ! Suc j \<noteq> 255"
  shows "Write (bufio recording) (newDataWriter k) data =
           (int (length data), None :: 'e option,
            \<lparr>err = None, buf = [], buflen = defaultBufSize, wr = k @ escaped data\<rparr>)"
proof -
  let ?b = "newDataWriter k :: (byte list, 'e) Writer"
  have "err ?b = None" by (simp add: newDataWriter_def)
  from recording_loop [OF assms _ this, of 0 0] obtain b' where
    "Write_loop (bufio recording) ?b data 0 0 = (int (length data), None, b')"
    "err b' = None" "buf b' = []" "buflen b' = buflen ?b" "wr b' = wr ?b @ buf ?b @ escaped data"
    by auto
  then show ?thesis by (cases b') (simp add: Write_def newDataWriter_def)
qed

subsection \<open>Failures of the wrapped writer and flushing\<close>

text \<open>
  C4 as stated (every failure of a write or a flush is returned; no nil error after a
  failed flush) fails: the value returned by \<^verbatim>\<open>Flush\<close> is dropped at every call.
  With a broken underlying writer, one byte is buffered, the last flush fails, and
  \<^verbatim>\<open>Write\<close> returns the count 1 and a nil error.
\<close>

theorem failed_final_Flush_not_returned:
  "Write (traced (bufio (broken ErrClosed))) ([], newDataWriter ()) [1] =
     (1, None,
      ([EvWrite [1] 1 None, EvFlush (Some ErrClosed)],
       \<lparr>err = Some ErrClosed, buf = [1], buflen = 4096, wr = ()\<rparr>))"
  by code_simp

text \<open>
  C4, amended. For the buffered writer over any underlying writer: whenever a call that
  \<^verbatim>\<open>Write\<close> makes on the wrapped writer fails, be it a \<^verbatim>\<open>Write\<close>, a
  \<^verbatim>\<open>WriteByte\<close> or a \<^verbatim>\<open>Flush\<close>, and it is not a \<^verbatim>\<open>Flush\<close> that is the last
  call made, that failure is the error that \<^verbatim>\<open>Write\<close> returns.
\<close>

theorem Write_returns_failures:
  assumes run: "Write (traced (bufio snk)) ([], w) data = (n, x, (log, w'))"
    and split: "log = pre @ ev # post"
    and failed: "ev_error ev = Some e"
    and not_last_flush: "post = [] \<longrightarrow> \<not> is_flush ev"
  shows "x = Some e"
proof (cases "post = []")
  case False
  from run obtain l1 where "log = [] @ l1"
      and all: "\<forall>ev \<in> set (butlast l1). \<forall>e. ev_error ev = Some e \<longrightarrow> x = Some e"
    unfolding Write_def using bufio_loop_failures_returned by blast
  then have "l1 = pre @ ev # post" using split by simp
  then have "ev \<in> set (butlast l1)" using False by (simp add: butlast_append)
  with all failed show ?thesis by blast
next
  case True
  with not_last_flush failed have forward: "failed_forward ev" by (cases ev) auto
  have "call_shape log n x" using run by (rule Write_call_shape)
  from call_shape_failed [OF this split forward] failed show ?thesis by simp
qed

text \<open>
  An instance: the flush between the two bytes of a pair fails; its error is returned.
\<close>

theorem Write_returns_failures_witness:
  "Write (traced (bufio (broken ErrClosed))) ([], newDataWriter ()) [255] =
     (1, Some ErrClosed,
      ([EvWrite [] 0 None, EvWriteByte 255 None, EvFlush (Some ErrClosed),
        EvWriteByte 255 (Some ErrClosed), EvFlush (Some ErrClosed)],
       \<lparr>err = Some ErrClosed, buf = [255], buflen = 4096, wr = ()\<rparr>)) \<and>
   ev_error (EvFlush (Some ErrClosed)) = Some ErrClosed"
proof -
  have run: "Write (traced (bufio (broken ErrClosed))) ([], newDataWriter ()) [255] =
     (1, Some ErrClosed,
      ([EvWrite [] 0 None, EvWriteByte 255 None, EvFlush (Some ErrClosed),
        EvWriteByte 255 (Some ErrClosed), EvFlush (Some ErrClosed)],
       \<lparr>err = Some ErrClosed, buf = [255], buflen = 4096, wr = ()\<rparr>))"
    by code_simp
  have split: "[EvWrite [] 0 None, EvWriteByte 255 None, EvFlush (Some ErrClosed),
        EvWriteByte 255 (Some ErrClosed), EvFlush (Some ErrClosed)] =
      [EvWrite [] 0 None, EvWriteByte 255 None] @ EvFlush (Some ErrClosed) #
        [EvWriteByte 255 (Some ErrClosed), EvFlush (Some ErrClosed)]" by simp
  have failed: "ev_error (EvFlush (Some ErrClosed)) = Some ErrClosed" by simp
  from Write_returns_failures [OF run split failed] run failed show ?thesis by simp
qed


text \<open>
  The other return paths do end with a call of \<^verbatim>\<open>Flush\<close>: for every wrapped writer,
  the last call of a run of \<^verbatim>\<open>Write\<close> is a \<^verbatim>\<open>Flush\<close>, unless it is the failed
  first \<^verbatim>\<open>WriteByte\<close> of line 86.
\<close>

lemma Write_ends_with_Flush_or_failed_WriteByte:
  assumes "Write (traced W) ([], s) data = (n, x, (log, s'))"
  shows "is_flush (last log) \<or> (\<exists>e. last log = EvWriteByte 255 (Some e) \<and> x = Some e)"
  using Write_call_shape [OF assms] by (rule call_shape_last)

text \<open>
  What a flush achieves depends on the underlying writer: when it fails,
  \<^verbatim>\<open>bufio.Writer\<close> keeps the bytes that were not taken, as in the run below, where
  \<^verbatim>\<open>Flush\<close> is called twice. After any call of \<^verbatim>\<open>Write\<close> the buffer is empty
  or an error is recorded (\<open>Write_bufio_post\<close>).
\<close>

lemma pending_after_failed_Flush:
  "Write (traced (bufio (broken ErrClosed))) ([], newDataWriter ()) [9, 255] =
     (2, Some ErrClosed,
      ([EvWrite [9] 1 None, EvWriteByte 255 None, EvFlush (Some ErrClosed),
        EvWriteByte 255 (Some ErrClosed), EvFlush (Some ErrClosed)],
       \<lparr>err = Some ErrClosed, buf = [9, 255], buflen = 4096, wr = ()\<rparr>))"
  by code_simp

end
